theory Spec2Isabelle
  imports Complex_Main "HOL-Library.AList" "HOL-Library.Multiset"
begin

section \<open>Letter counters\<close>

text \<open>
  A \<^verbatim>\<open>collections.Counter\<close> is a dictionary from letters to integers. It is modelled
  as an association list in insertion order: reading a missing key gives \<open>0\<close> and inserts
  nothing, an assignment to an existing key keeps its position, and an assignment to a
  new key appends it. A dictionary object never holds a key twice, which is the
  predicate \<open>is_dict\<close>.
\<close>

type_synonym counter = "(char \<times> int) list"

definition is_dict :: "counter \<Rightarrow> bool" where
  "is_dict c = distinct (map fst c)"

definition getitem :: "counter \<Rightarrow> char \<Rightarrow> int" where
  \<comment> \<open>\<^verbatim>\<open>c[ch]\<close> on a Counter, and \<^verbatim>\<open>c.get(ch, 0)\<close>\<close>
  "getitem c ch = (case map_of c ch of None \<Rightarrow> 0 | Some v \<Rightarrow> v)"

definition isub :: "counter \<Rightarrow> char \<Rightarrow> int \<Rightarrow> counter" where
  \<comment> \<open>\<^verbatim>\<open>c[ch] -= k\<close>\<close>
  "isub c ch k = AList.update ch (getitem c ch - k) c"

definition Counter :: "string \<Rightarrow> counter" where
  \<comment> \<open>\<^verbatim>\<open>Counter(w)\<close>: one increment per character, in order\<close>
  "Counter w = foldl (\<lambda>c ch. AList.update ch (getitem c ch + 1) c) [] w"

definition keys :: "counter \<Rightarrow> char list" where
  "keys c = map fst c"

definition sum_values :: "counter \<Rightarrow> int" where
  \<comment> \<open>\<^verbatim>\<open>sum(c.values())\<close>\<close>
  "sum_values c = sum_list (map snd c)"

definition subtract_items :: "counter \<Rightarrow> counter \<Rightarrow> counter" where
  \<comment> \<open>\<^verbatim>\<open>for ch, cnt in wc.items(): c[ch] -= cnt\<close>\<close>
  "subtract_items c wc = foldl (\<lambda>c (ch, cnt). isub c ch cnt) c wc"

section \<open>Exceptions\<close>

text \<open>
  The two exceptions that the solver can raise: \<^verbatim>\<open>IndexError\<close> from a list access out
  of range, and \<^verbatim>\<open>RecursionError\<close> from a call nested deeper than the interpreter
  allows. The functions \<open>dfs\<close> and \<open>find_best_cover\<close> below leave the depth of nesting
  unlimited and so raise only the first; \<open>dfs_frames\<close> and \<open>find_best_cover_frames\<close>,
  further down, are the same code under a limit.
\<close>

datatype error = IndexError | RecursionError

definition index :: "'a list \<Rightarrow> nat \<Rightarrow> error + 'a" where
  \<comment> \<open>\<^verbatim>\<open>xs[i]\<close> for an index that is not negative\<close>
  "index xs i = (if i < length xs then Inr (xs ! i) else Inl IndexError)"

definition setitem :: "'a list \<Rightarrow> nat \<Rightarrow> 'a \<Rightarrow> error + 'a list" where
  \<comment> \<open>\<^verbatim>\<open>xs[i] = v\<close>\<close>
  "setitem xs i v = (if i < length xs then Inr (xs[i := v]) else Inl IndexError)"

definition pop :: "'a list \<Rightarrow> error + 'a list" where
  \<comment> \<open>\<^verbatim>\<open>xs.pop()\<close>, the popped element dropped\<close>
  "pop xs = (if xs = [] then Inl IndexError else Inr (butlast xs))"

section \<open>Candidate ordering and suffix bound\<close>

definition sorted_by_len_desc :: "string list \<Rightarrow> string list" where
  \<comment> \<open>\<^verbatim>\<open>sorted(words, key=len, reverse=True)\<close>: the list is reversed, sorted stably in
      ascending key order, and reversed again\<close>
  "sorted_by_len_desc ws = rev (sort_key length (rev ws))"

fun fill_rem_len :: "string list \<Rightarrow> nat list \<Rightarrow> int list \<Rightarrow> error + int list" where
  "fill_rem_len ws [] rem_len = Inr rem_len"
| "fill_rem_len ws (i # is) rem_len =
     (case index rem_len (i + 1) of
        Inl e \<Rightarrow> Inl e
      | Inr r \<Rightarrow>
          (case index ws i of
             Inl e \<Rightarrow> Inl e
           | Inr w \<Rightarrow>
               (case setitem rem_len i (r + int (length w)) of
                  Inl e \<Rightarrow> Inl e
                | Inr rem_len' \<Rightarrow> fill_rem_len ws is rem_len')))"

definition build_rem_len :: "string list \<Rightarrow> error + int list" where
  \<comment> \<open>\<^verbatim>\<open>rem_len = [0] * (n + 1)\<close>, then the loop over \<^verbatim>\<open>range(n - 1, -1, -1)\<close>\<close>
  "build_rem_len ws =
     (let n = length ws in fill_rem_len ws (rev [0..<n]) (replicate (n + 1) 0))"

section \<open>Greedy seed\<close>

text \<open>
  The variables the seed loop leaves behind: the two entries of \<^verbatim>\<open>best\<close>, the list
  \<^verbatim>\<open>chosen0\<close>, and the Counter \<^verbatim>\<open>letter_counts\<close>, which the loop updates in place.
\<close>

record seed =
  seed_used :: int
  seed_subset :: "string list"
  chosen0 :: "string list"
  seed_counts :: counter

fun greedy_seed :: "string list \<Rightarrow> counter \<Rightarrow> seed" where
  "greedy_seed [] letter_counts =
     \<lparr>seed_used = 0, seed_subset = [], chosen0 = [], seed_counts = letter_counts\<rparr>"
| "greedy_seed (w # ws) letter_counts =
     (let wc = Counter w in
      if list_all (\<lambda>(ch, c). c \<le> getitem letter_counts ch) wc
      then \<lparr>seed_used = int (length w), seed_subset = [w], chosen0 = [w],
            seed_counts = subtract_items letter_counts wc\<rparr>
      else greedy_seed ws letter_counts)"

section \<open>Depth-first search\<close>

text \<open>
  The closure variables of \<^verbatim>\<open>dfs\<close> are the record \<open>env\<close>; \<open>now k\<close> is the value of
  the \<open>k\<close>-th call of \<^verbatim>\<open>time.time()\<close> of the run (the call that computes the deadline
  is number \<open>0\<close>). The variables that the nested function mutates are the record
  \<open>search\<close>: the dictionary \<^verbatim>\<open>best\<close>, the shared list \<^verbatim>\<open>chosen\<close>, and the number of
  clock readings made so far.
\<close>

record env =
  now :: "nat \<Rightarrow> real"
  deadline :: real
  words :: "string list"
  rem_len :: "int list"

record search =
  best_used :: int
  best_subset :: "string list"
  chosen :: "string list"
  clock_reads :: nat

definition read_clock :: "search \<Rightarrow> search" where
  "read_clock s = s\<lparr>clock_reads := clock_reads s + 1\<rparr>"

definition record_best :: "int \<Rightarrow> search \<Rightarrow> search" where
  \<comment> \<open>\<^verbatim>\<open>if used > best["used"]: best["used"] = used; best["subset"] = chosen.copy()\<close>\<close>
  "record_best used s =
     (if best_used s < used then s\<lparr>best_used := used, best_subset := chosen s\<rparr> else s)"

function dfs :: "env \<Rightarrow> nat \<Rightarrow> counter \<Rightarrow> int \<Rightarrow> search \<Rightarrow> error + search"
  and branches :: "env \<Rightarrow> nat \<Rightarrow> counter \<Rightarrow> int \<Rightarrow> search \<Rightarrow> error + search"
where
  "dfs E idx counts used s =
     (if deadline E < now E (clock_reads s) then Inr (read_clock s)
      else
        (case index (rem_len E) idx of
           Inl e \<Rightarrow> Inl e
         | Inr r \<Rightarrow>
             if used + r \<le> best_used s then Inr (read_clock s)
             else branches E idx counts used (record_best used (read_clock s))))"
| "branches E i counts used s =
     (if i < length (words E) then
        (case index (words E) i of
           Inl e \<Rightarrow> Inl e
         | Inr w \<Rightarrow>
             if sum_values counts < int (length w) then branches E (i + 1) counts used s
             else
               (let wc = Counter w in
                if list_all (\<lambda>ch. getitem wc ch \<le> getitem counts ch) (keys wc) then
                  (case dfs E (i + 1) (subtract_items counts wc) (used + int (length w))
                          (s\<lparr>chosen := chosen s @ [w]\<rparr>) of
                     Inl e \<Rightarrow> Inl e
                   | Inr s' \<Rightarrow>
                       (case pop (chosen s') of
                          Inl e \<Rightarrow> Inl e
                        | Inr c' \<Rightarrow> branches E (i + 1) counts used (s'\<lparr>chosen := c'\<rparr>)))
                else branches E (i + 1) counts used s))
      else Inr s)"
  by pat_completeness auto
termination
  by (relation "measure (\<lambda>x. case x of
        Inl (E, idx, counts, used, s) \<Rightarrow> 2 * (length (words E) - idx) + 1
      | Inr (E, i, counts, used, s) \<Rightarrow> 2 * (length (words E) - i))") auto

section \<open>The solver\<close>

text \<open>
  The result of a call holds the returned pair and, since the Counter argument is an
  object of the caller, the value of that object and of the caller's word list after the
  call; \<open>reads_after\<close> is the number of calls of \<^verbatim>\<open>time.time()\<close> the run has made.
  The name \<^verbatim>\<open>words\<close> is bound to the new list that \<^verbatim>\<open>sorted\<close> returns, so the caller's
  list is left as it is; the seed loop assigns into \<^verbatim>\<open>letter_counts\<close> itself, and the
  root call receives a copy of the Counter as the seed loop left it.
\<close>

record outcome =
  returned :: "string list \<times> int"
  letter_counts_after :: counter
  words_after :: "string list"
  reads_after :: nat

definition find_best_cover ::
  "(nat \<Rightarrow> real) \<Rightarrow> string list \<Rightarrow> counter \<Rightarrow> real \<Rightarrow> error + outcome" where
  "find_best_cover clock ws letter_counts timeout =
     (let dl = clock 0 + timeout;
          sorted_ws = sorted_by_len_desc ws;
          sd = greedy_seed sorted_ws letter_counts
      in case build_rem_len sorted_ws of
           Inl e \<Rightarrow> Inl e
         | Inr rl \<Rightarrow>
             (case dfs \<lparr>now = clock, deadline = dl, words = sorted_ws, rem_len = rl\<rparr>
                       0 (seed_counts sd) (seed_used sd)
                       \<lparr>best_used = seed_used sd, best_subset = seed_subset sd,
                        chosen = chosen0 sd, clock_reads = 1\<rparr> of
                Inl e \<Rightarrow> Inl e
              | Inr s \<Rightarrow>
                  Inr \<lparr>returned = (best_subset s, best_used s),
                       letter_counts_after = seed_counts sd,
                       words_after = ws,
                       reads_after = clock_reads s\<rparr>))"

section \<open>The search without the length pre-check\<close>

text \<open>
  The same search with lines 208 and 209 (the comparison of the word's length with
  \<^verbatim>\<open>sum(counts.values())\<close>) left out, for comparison with \<open>dfs\<close>.
\<close>

function dfs_nocheck :: "env \<Rightarrow> nat \<Rightarrow> counter \<Rightarrow> int \<Rightarrow> search \<Rightarrow> error + search"
  and branches_nocheck :: "env \<Rightarrow> nat \<Rightarrow> counter \<Rightarrow> int \<Rightarrow> search \<Rightarrow> error + search"
where
  "dfs_nocheck E idx counts used s =
     (if deadline E < now E (clock_reads s) then Inr (read_clock s)
      else
        (case index (rem_len E) idx of
           Inl e \<Rightarrow> Inl e
         | Inr r \<Rightarrow>
             if used + r \<le> best_used s then Inr (read_clock s)
             else branches_nocheck E idx counts used (record_best used (read_clock s))))"
| "branches_nocheck E i counts used s =
     (if i < length (words E) then
        (case index (words E) i of
           Inl e \<Rightarrow> Inl e
         | Inr w \<Rightarrow>
             (let wc = Counter w in
              if list_all (\<lambda>ch. getitem wc ch \<le> getitem counts ch) (keys wc) then
                (case dfs_nocheck E (i + 1) (subtract_items counts wc) (used + int (length w))
                        (s\<lparr>chosen := chosen s @ [w]\<rparr>) of
                   Inl e \<Rightarrow> Inl e
                 | Inr s' \<Rightarrow>
                     (case pop (chosen s') of
                        Inl e \<Rightarrow> Inl e
                      | Inr c' \<Rightarrow> branches_nocheck E (i + 1) counts used (s'\<lparr>chosen := c'\<rparr>)))
              else branches_nocheck E (i + 1) counts used s))
      else Inr s)"
  by pat_completeness auto
termination
  by (relation "measure (\<lambda>x. case x of
        Inl (E, idx, counts, used, s) \<Rightarrow> 2 * (length (words E) - idx) + 1
      | Inr (E, i, counts, used, s) \<Rightarrow> 2 * (length (words E) - i))") auto

definition find_best_cover_nocheck ::
  "(nat \<Rightarrow> real) \<Rightarrow> string list \<Rightarrow> counter \<Rightarrow> real \<Rightarrow> error + outcome" where
  "find_best_cover_nocheck clock ws letter_counts timeout =
     (let dl = clock 0 + timeout;
          sorted_ws = sorted_by_len_desc ws;
          sd = greedy_seed sorted_ws letter_counts
      in case build_rem_len sorted_ws of
           Inl e \<Rightarrow> Inl e
         | Inr rl \<Rightarrow>
             (case dfs_nocheck \<lparr>now = clock, deadline = dl, words = sorted_ws, rem_len = rl\<rparr>
                       0 (seed_counts sd) (seed_used sd)
                       \<lparr>best_used = seed_used sd, best_subset = seed_subset sd,
                        chosen = chosen0 sd, clock_reads = 1\<rparr> of
                Inl e \<Rightarrow> Inl e
              | Inr s \<Rightarrow>
                  Inr \<lparr>returned = (best_subset s, best_used s),
                       letter_counts_after = seed_counts sd,
                       words_after = ws,
                       reads_after = clock_reads s\<rparr>))"

section \<open>The solver with the deadline as line 173 computes it\<close>

text \<open>
  Line 173 adds two binary64 numbers, and the sum is rounded; the search compares every
  later reading with the rounded value. The rounding is not modelled: the solver below
  takes the value that line 173 assigns to \<^verbatim>\<open>deadline\<close> as its argument \<open>dl\<close>, whatever
  the addition made of the reading and the timeout. Reading number \<open>0\<close> of the clock is
  still the one that line 173 makes.
\<close>

definition find_best_cover_at ::
  "real \<Rightarrow> (nat \<Rightarrow> real) \<Rightarrow> string list \<Rightarrow> counter \<Rightarrow> error + outcome" where
  "find_best_cover_at dl clock ws letter_counts =
     (let sorted_ws = sorted_by_len_desc ws;
          sd = greedy_seed sorted_ws letter_counts
      in case build_rem_len sorted_ws of
           Inl e \<Rightarrow> Inl e
         | Inr rl \<Rightarrow>
             (case dfs \<lparr>now = clock, deadline = dl, words = sorted_ws, rem_len = rl\<rparr>
                       0 (seed_counts sd) (seed_used sd)
                       \<lparr>best_used = seed_used sd, best_subset = seed_subset sd,
                        chosen = chosen0 sd, clock_reads = 1\<rparr> of
                Inl e \<Rightarrow> Inl e
              | Inr s \<Rightarrow>
                  Inr \<lparr>returned = (best_subset s, best_used s),
                       letter_counts_after = seed_counts sd,
                       words_after = ws,
                       reads_after = clock_reads s\<rparr>))"

section \<open>The solver under the interpreter's recursion limit\<close>





section \<open>Notions used in the statements\<close>

definition nonneg :: "counter \<Rightarrow> bool" where
  \<comment> \<open>every stored count is at least zero\<close>
  "nonneg c = list_all (\<lambda>(ch, v). 0 \<le> v) c"

definition occurrences :: "char \<Rightarrow> string list \<Rightarrow> int" where
  \<comment> \<open>how often a letter occurs in a list of words, all words together\<close>
  "occurrences ch ws = (\<Sum>w\<leftarrow>ws. int (count_list w ch))"

definition total_length :: "string list \<Rightarrow> int" where
  "total_length ws = (\<Sum>w\<leftarrow>ws. int (length w))"

definition suffix_len :: "string list \<Rightarrow> nat \<Rightarrow> int" where
  \<comment> \<open>the summed length of the words at index \<open>i\<close> and after\<close>
  "suffix_len ws i = int (sum_list (map length (drop i ws)))"

definition solver_env :: "(nat \<Rightarrow> real) \<Rightarrow> string list \<Rightarrow> real \<Rightarrow> env" where
  \<comment> \<open>the closure variables of the search inside one call of the solver\<close>
  "solver_env clock ws timeout =
     \<lparr>now = clock, deadline = clock 0 + timeout, words = sorted_by_len_desc ws,
      rem_len = map (suffix_len (sorted_by_len_desc ws)) [0..<length ws + 1]\<rparr>"

definition root_state :: "seed \<Rightarrow> search" where
  \<comment> \<open>the mutable variables when the root call \<^verbatim>\<open>dfs(0, ...)\<close> is made\<close>
  "root_state sd = \<lparr>best_used = seed_used sd, best_subset = seed_subset sd,
                    chosen = chosen0 sd, clock_reads = 1\<rparr>"

definition view :: "search \<Rightarrow> int \<times> string list \<times> string list" where
  \<comment> \<open>the search variables without the count of clock readings\<close>
  "view s = (best_used s, best_subset s, chosen s)"

section \<open>Counters: lookups after updates\<close>

lemma getitem_update: "getitem (AList.update k v c) ch = (if ch = k then v else getitem c ch)"
  by (simp add: getitem_def update_conv)

lemma getitem_isub: "getitem (isub c k v) ch = (if ch = k then getitem c k - v else getitem c ch)"
  by (simp add: isub_def getitem_update)

lemma getitem_Nil: "getitem [] ch = 0"
  by (simp add: getitem_def)

lemma getitem_count_fold:
  "getitem (foldl (\<lambda>c ch. AList.update ch (getitem c ch + 1) c) c w) ch
     = getitem c ch + int (count_list w ch)"
  by (induction w arbitrary: c) (simp_all add: getitem_update)

lemma getitem_Counter: "getitem (Counter w) ch = int (count_list w ch)"
  by (simp add: Counter_def getitem_count_fold getitem_Nil)

lemma keys_count_fold:
  "set (map fst (foldl (\<lambda>c ch. AList.update ch (getitem c ch + 1) c) c w)) = set (map fst c) \<union> set w"
  by (induction w arbitrary: c) (auto simp: dom_update)

lemma keys_Counter: "set (keys (Counter w)) = set w"
  by (simp add: Counter_def keys_def keys_count_fold del: set_map)

lemma dict_count_fold:
  "distinct (map fst c) \<Longrightarrow> distinct (map fst (foldl (\<lambda>c ch. AList.update ch (getitem c ch + 1) c) c w))"
  by (induction w arbitrary: c) (simp_all add: distinct_update)

lemma is_dict_Counter: "is_dict (Counter w)"
  by (simp add: is_dict_def Counter_def dict_count_fold)

lemma is_dict_isub: "is_dict c \<Longrightarrow> is_dict (isub c k v)"
  by (simp add: is_dict_def isub_def distinct_update)

lemma getitem_subtract_fold:
  "getitem (foldl (\<lambda>c (ch, cnt). isub c ch cnt) c wc) ch
     = getitem c ch - sum_list (map snd (filter (\<lambda>p. fst p = ch) wc))"
  by (induction wc arbitrary: c) (auto simp: getitem_isub)

lemma dict_filter_key:
  "distinct (map fst wc) \<Longrightarrow> sum_list (map snd (filter (\<lambda>p. fst p = ch) wc)) = getitem wc ch"
proof (induction wc)
  case Nil
  then show ?case by (simp add: getitem_def)
next
  case (Cons p wc)
  show ?case
  proof (cases "fst p = ch")
    case True
    from Cons.prems have "fst p \<notin> fst ` set wc" by simp
    then have "\<forall>q\<in>set wc. fst q \<noteq> ch" unfolding True by (blast intro: rev_image_eqI)
    then have "filter (\<lambda>p. fst p = ch) wc = []"
      by (simp add: filter_empty_conv)
    with True show ?thesis by (cases p) (simp add: getitem_def)
  next
    case False
    with Cons show ?thesis by (cases p) (auto simp add: getitem_def)
  qed
qed

lemma getitem_subtract_items:
  "is_dict wc \<Longrightarrow> getitem (subtract_items c wc) ch = getitem c ch - getitem wc ch"
  by (simp add: subtract_items_def getitem_subtract_fold dict_filter_key is_dict_def)

lemma getitem_subtract_Counter:
  "getitem (subtract_items c (Counter w)) ch = getitem c ch - int (count_list w ch)"
  by (simp add: getitem_subtract_items is_dict_Counter getitem_Counter)

lemma is_dict_subtract_items: "is_dict c \<Longrightarrow> is_dict (subtract_items c wc)"
  unfolding subtract_items_def
  by (induction wc arbitrary: c) (auto simp: is_dict_isub)

lemma afford_dfs_iff:
  "list_all (\<lambda>ch. getitem (Counter w) ch \<le> getitem counts ch) (keys (Counter w))
     \<longleftrightarrow> (\<forall>ch\<in>set w. int (count_list w ch) \<le> getitem counts ch)"
  by (simp add: list_all_iff keys_Counter getitem_Counter)

lemma afford_seed_iff:
  "list_all (\<lambda>(ch, c). c \<le> getitem counts ch) (Counter w)
     \<longleftrightarrow> (\<forall>ch\<in>set w. int (count_list w ch) \<le> getitem counts ch)"
proof -
  have d: "distinct (map fst (Counter w))"
    using is_dict_Counter by (simp add: is_dict_def)
  have m: "(k, v) \<in> set (Counter w) \<longleftrightarrow> k \<in> set w \<and> v = int (count_list w k)" for k v
  proof
    assume a: "(k, v) \<in> set (Counter w)"
    then have "map_of (Counter w) k = Some v" using d by simp
    then have "getitem (Counter w) k = v" by (simp add: getitem_def)
    moreover have "k \<in> set (keys (Counter w))" using a by (force simp: keys_def)
    ultimately show "k \<in> set w \<and> v = int (count_list w k)"
      by (simp add: getitem_Counter keys_Counter)
  next
    assume a: "k \<in> set w \<and> v = int (count_list w k)"
    then have "k \<in> fst ` set (Counter w)" using keys_Counter[of w] by (simp add: keys_def)
    then obtain v' where v': "(k, v') \<in> set (Counter w)" by force
    then have "map_of (Counter w) k = Some v'" using d by simp
    then have "getitem (Counter w) k = v'" by (simp add: getitem_def)
    with a v' show "(k, v) \<in> set (Counter w)" by (simp add: getitem_Counter)
  qed
  show ?thesis
    by (auto simp: list_all_iff m)
qed

section \<open>The search: termination of a call, the shared path, invariants\<close>

declare dfs.simps [simp del] branches.simps [simp del]
declare dfs_nocheck.simps [simp del] branches_nocheck.simps [simp del]

lemma chosen_read_clock [simp]: "chosen (read_clock s) = chosen s"
  by (simp add: read_clock_def)
lemma best_used_read_clock [simp]: "best_used (read_clock s) = best_used s"
  by (simp add: read_clock_def)
lemma best_subset_read_clock [simp]: "best_subset (read_clock s) = best_subset s"
  by (simp add: read_clock_def)
lemma chosen_record_best [simp]: "chosen (record_best u s) = chosen s"
  by (simp add: record_best_def)
lemma pop_snoc [simp]: "pop (xs @ [x]) = Inr xs"
  by (simp add: pop_def)

lemma dfs_chosen: "dfs E idx counts used s = Inr s' \<Longrightarrow> chosen s' = chosen s"
  and branches_chosen: "branches E i counts used s = Inr s' \<Longrightarrow> chosen s' = chosen s"
proof (induction E idx counts used s and E i counts used s arbitrary: s' and s'
    rule: dfs_branches.induct)
  case (1 E idx counts used s)
  from "1.prems" show ?case
    by (subst (asm) dfs.simps) (auto split: if_splits sum.splits dest: "1.IH")
next
  case (2 E i counts used s)
  show ?case
  proof (cases "i < length (words E)")
    case False
    with "2.prems" show ?thesis by (subst (asm) branches.simps) simp
  next
    case True
    then obtain w where w: "index (words E) i = Inr w" by (simp add: index_def)
    show ?thesis
    proof (cases "sum_values counts < int (length w)")
      case True
      with "2.prems" \<open>i < length (words E)\<close> w have "branches E (i + 1) counts used s = Inr s'"
        by (subst (asm) branches.simps) simp
      with "2.IH"(1)[OF \<open>i < length (words E)\<close> w True] show ?thesis .
    next
      case nolen: False
      show ?thesis
      proof (cases "list_all (\<lambda>ch. getitem (Counter w) ch \<le> getitem counts ch) (keys (Counter w))")
        case False
        with "2.prems" \<open>i < length (words E)\<close> w nolen
        have "branches E (i + 1) counts used s = Inr s'"
          by (subst (asm) branches.simps) simp
        with "2.IH"(4)[OF \<open>i < length (words E)\<close> w nolen refl False] show ?thesis .
      next
        case aff: True
        let ?d = "dfs E (i + 1) (subtract_items counts (Counter w)) (used + int (length w))
                    (s\<lparr>chosen := chosen s @ [w]\<rparr>)"
        from "2.prems" \<open>i < length (words E)\<close> w nolen aff
        obtain s1 c1 where s1: "?d = Inr s1" and c1: "pop (chosen s1) = Inr c1"
          and r: "branches E (i + 1) counts used (s1\<lparr>chosen := c1\<rparr>) = Inr s'"
          by (subst (asm) branches.simps) (auto split: sum.splits)
        from "2.IH"(2)[OF \<open>i < length (words E)\<close> w nolen refl aff s1]
        have "chosen s1 = chosen s @ [w]" by simp
        with c1 have "c1 = chosen s" by simp
        with "2.IH"(3)[OF \<open>i < length (words E)\<close> w nolen refl aff s1 c1 r]
        show ?thesis by simp
      qed
    qed
  qed
qed

lemma branches_unfold:
  assumes "i < length (words E)"
  shows "branches E i counts used s =
     (if sum_values counts < int (length (words E ! i)) then branches E (i + 1) counts used s
      else if list_all (\<lambda>ch. getitem (Counter (words E ! i)) ch \<le> getitem counts ch)
                (keys (Counter (words E ! i))) then
        (case dfs E (i + 1) (subtract_items counts (Counter (words E ! i)))
                (used + int (length (words E ! i))) (s\<lparr>chosen := chosen s @ [words E ! i]\<rparr>) of
           Inl e \<Rightarrow> Inl e
         | Inr s' \<Rightarrow> branches E (i + 1) counts used (s'\<lparr>chosen := chosen s\<rparr>))
      else branches E (i + 1) counts used s)"
proof -
  have "pop (chosen s1) = Inr (chosen s)"
    if "dfs E (i + 1) (subtract_items counts (Counter (words E ! i)))
          (used + int (length (words E ! i))) (s\<lparr>chosen := chosen s @ [words E ! i]\<rparr>) = Inr s1"
    for s1
    using dfs_chosen[OF that] by simp
  with assms show ?thesis
    by (subst branches.simps) (auto simp: index_def Let_def split: sum.splits)
qed

lemma branches_done: "\<not> i < length (words E) \<Longrightarrow> branches E i counts used s = Inr s"
  by (subst branches.simps) simp

lemma dfs_total:
  "length (rem_len E) = length (words E) + 1 \<Longrightarrow> idx \<le> length (words E)
     \<Longrightarrow> \<exists>s'. dfs E idx counts used s = Inr s'"
  and branches_total:
  "length (rem_len E) = length (words E) + 1 \<Longrightarrow> \<exists>s'. branches E i counts used s = Inr s'"
proof (induction E idx counts used s and E i counts used s rule: dfs_branches.induct)
  case (1 E idx counts used s)
  then have ix: "index (rem_len E) idx = Inr (rem_len E ! idx)"
    by (simp add: index_def)
  show ?case
  proof (cases "deadline E < now E (clock_reads s) \<or> used + rem_len E ! idx \<le> best_used s")
    case True
    then show ?thesis using ix by (subst dfs.simps) auto
  next
    case False
    with "1.IH"[OF _ ix] "1.prems"(1)
    obtain s' where "branches E idx counts used (record_best used (read_clock s)) = Inr s'"
      by auto
    with False ix show ?thesis by (subst dfs.simps) auto
  qed
next
  case (2 E i counts used s)
  show ?case
  proof (cases "i < length (words E)")
    case False
    then show ?thesis by (simp add: branches_done)
  next
    case lt: True
    then have w: "index (words E) i = Inr (words E ! i)" by (simp add: index_def)
    let ?w = "words E ! i"
    show ?thesis
    proof (cases "sum_values counts < int (length ?w)")
      case True
      with "2.IH"(1)[OF lt w True "2.prems"] lt show ?thesis
        by (simp add: branches_unfold)
    next
      case nolen: False
      show ?thesis
      proof (cases "list_all (\<lambda>ch. getitem (Counter ?w) ch \<le> getitem counts ch) (keys (Counter ?w))")
        case False
        with "2.IH"(4)[OF lt w nolen refl False "2.prems"] lt nolen show ?thesis
          by (simp add: branches_unfold)
      next
        case aff: True
        from lt have "i + 1 \<le> length (words E)" by simp
        from "2.IH"(2)[OF lt w nolen refl aff "2.prems" this]
        obtain s1 where s1: "dfs E (i + 1) (subtract_items counts (Counter ?w))
           (used + int (length ?w)) (s\<lparr>chosen := chosen s @ [?w]\<rparr>) = Inr s1" by auto
        from dfs_chosen[OF s1] have c: "pop (chosen s1) = Inr (chosen s)" by simp
        from "2.IH"(3)[OF lt w nolen refl aff s1 c "2.prems"] s1 lt nolen aff show ?thesis
          by (simp add: branches_unfold)
      qed
    qed
  qed
qed

lemma dfs_invariant:
  fixes N :: "counter \<Rightarrow> string list \<Rightarrow> int \<Rightarrow> bool" and B :: "int \<Rightarrow> string list \<Rightarrow> bool"
  assumes step: "\<And>counts chsn used w. N counts chsn used \<Longrightarrow>
      list_all (\<lambda>ch. getitem (Counter w) ch \<le> getitem counts ch) (keys (Counter w)) \<Longrightarrow>
      N (subtract_items counts (Counter w)) (chsn @ [w]) (used + int (length w))"
    and better: "\<And>counts chsn used b bs. N counts chsn used \<Longrightarrow> B b bs \<Longrightarrow> b < used \<Longrightarrow> B used chsn"
  shows "dfs E idx counts used s = Inr s' \<Longrightarrow> N counts (chosen s) used \<Longrightarrow>
           B (best_used s) (best_subset s) \<Longrightarrow> B (best_used s') (best_subset s')"
    and "branches E i counts used s = Inr s' \<Longrightarrow> N counts (chosen s) used \<Longrightarrow>
           B (best_used s) (best_subset s) \<Longrightarrow> B (best_used s') (best_subset s')"
proof (induction E idx counts used s and E i counts used s arbitrary: s' and s'
    rule: dfs_branches.induct)
  case (1 E idx counts used s)
  have rb: "B (best_used (record_best used (read_clock s))) (best_subset (record_best used (read_clock s)))"
    using "1.prems"(2,3) better[of counts "chosen s" used "best_used s" "best_subset s"]
    by (simp add: record_best_def)
  from "1.prems"(1) show ?case
    by (subst (asm) dfs.simps)
      (use "1.prems"(2,3) rb in \<open>auto split: if_splits sum.splits dest!: "1.IH"\<close>)
next
  case (2 E i counts used s)
  show ?case
  proof (cases "i < length (words E)")
    case False
    with "2.prems" show ?thesis by (simp add: branches_done)
  next
    case lt: True
    then have w: "index (words E) i = Inr (words E ! i)" by (simp add: index_def)
    let ?w = "words E ! i"
    show ?thesis
    proof (cases "sum_values counts < int (length ?w)")
      case True
      with "2.prems"(1) lt have "branches E (i + 1) counts used s = Inr s'"
        by (simp add: branches_unfold)
      from "2.IH"(1)[OF lt w True this "2.prems"(2,3)] show ?thesis .
    next
      case nolen: False
      show ?thesis
      proof (cases "list_all (\<lambda>ch. getitem (Counter ?w) ch \<le> getitem counts ch) (keys (Counter ?w))")
        case False
        with "2.prems"(1) lt nolen have "branches E (i + 1) counts used s = Inr s'"
          by (simp add: branches_unfold)
        from "2.IH"(4)[OF lt w nolen refl False this "2.prems"(2,3)] show ?thesis .
      next
        case aff: True
        let ?d = "dfs E (i + 1) (subtract_items counts (Counter ?w)) (used + int (length ?w))
                    (s\<lparr>chosen := chosen s @ [?w]\<rparr>)"
        from "2.prems"(1) lt nolen aff
        obtain s1 where s1: "?d = Inr s1"
          and r: "branches E (i + 1) counts used (s1\<lparr>chosen := chosen s\<rparr>) = Inr s'"
          by (auto simp: branches_unfold split: sum.splits)
        from dfs_chosen[OF s1] have c: "pop (chosen s1) = Inr (chosen s)" by simp
        have n1: "N (subtract_items counts (Counter ?w)) (chosen (s\<lparr>chosen := chosen s @ [?w]\<rparr>))
                    (used + int (length ?w))"
          using step[OF "2.prems"(2) aff] by simp
        have b1: "B (best_used s1) (best_subset s1)"
          using "2.IH"(2)[OF lt w nolen refl aff s1 n1] "2.prems"(3) by simp
        show ?thesis
          using "2.IH"(3)[OF lt w nolen refl aff s1 c r] "2.prems"(2) b1 by simp
      qed
    qed
  qed
qed

section \<open>Suffix bound and the solver as one root call\<close>

lemma suffix_len_step: "i < length ws \<Longrightarrow> suffix_len ws i = suffix_len ws (i + 1) + int (length (ws ! i))"
  by (simp add: suffix_len_def flip: Cons_nth_drop_Suc)

lemma fill_rem_len_suffix:
  "k \<le> length ws \<Longrightarrow> length r = length ws + 1 \<Longrightarrow>
   (\<forall>j. k \<le> j \<and> j \<le> length ws \<longrightarrow> r ! j = suffix_len ws j) \<Longrightarrow>
   \<exists>r'. fill_rem_len ws (rev [0..<k]) r = Inr r' \<and> length r' = length ws + 1 \<and>
        (\<forall>j\<le>length ws. r' ! j = suffix_len ws j)"
proof (induction k arbitrary: r)
  case 0
  then show ?case by simp
next
  case (Suc k)
  let ?r = "r[k := r ! (k + 1) + int (length (ws ! k))]"
  have a: "k \<le> length ws" "length ?r = length ws + 1" using Suc.prems by simp_all
  have b: "\<forall>j. k \<le> j \<and> j \<le> length ws \<longrightarrow> ?r ! j = suffix_len ws j"
  proof (intro allI impI)
    fix j assume j: "k \<le> j \<and> j \<le> length ws"
    show "?r ! j = suffix_len ws j"
    proof (cases "j = k")
      case True
      with Suc.prems show ?thesis by (simp add: suffix_len_step)
    next
      case False
      with j Suc.prems show ?thesis by simp
    qed
  qed
  from Suc.IH[OF a b] Suc.prems(1,2) show ?case
    by (simp add: index_def setitem_def)
qed

lemma build_rem_len_eq:
  "build_rem_len ws = Inr (map (suffix_len ws) [0..<length ws + 1])"
proof -
  have "\<forall>j. length ws \<le> j \<and> j \<le> length ws \<longrightarrow> replicate (length ws + 1) (0::int) ! j = suffix_len ws j"
  proof (intro allI impI)
    fix j assume "length ws \<le> j \<and> j \<le> length ws"
    then have j: "j = length ws" by simp
    have "replicate (length ws + 1) (0::int) ! length ws = 0"
      by (rule nth_replicate) simp
    with j show "replicate (length ws + 1) (0::int) ! j = suffix_len ws j"
      by (simp add: suffix_len_def)
  qed
  from fill_rem_len_suffix[OF le_refl _ this]
  obtain r' where r: "fill_rem_len ws (rev [0..<length ws]) (replicate (length ws + 1) 0) = Inr r'"
    and l: "length r' = length ws + 1" and v: "\<forall>j\<le>length ws. r' ! j = suffix_len ws j"
    by auto
  have "r' = map (suffix_len ws) [0..<length ws + 1]"
    by (rule nth_equalityI) (use l v in \<open>auto simp: nth_append less_Suc_eq\<close>)
  with r show ?thesis by (simp add: build_rem_len_def Let_def)
qed

lemma length_sorted_by_len_desc [simp]: "length (sorted_by_len_desc ws) = length ws"
  by (simp add: sorted_by_len_desc_def)

lemma find_best_cover_dfs:
  "find_best_cover clock ws lc timeout =
     (let sd = greedy_seed (sorted_by_len_desc ws) lc in
      case dfs (solver_env clock ws timeout) 0 (seed_counts sd) (seed_used sd) (root_state sd) of
        Inl e \<Rightarrow> Inl e
      | Inr s \<Rightarrow> Inr \<lparr>returned = (best_subset s, best_used s),
                      letter_counts_after = seed_counts sd, words_after = ws,
                      reads_after = clock_reads s\<rparr>)"
  by (simp add: find_best_cover_def build_rem_len_eq solver_env_def root_state_def Let_def)

lemma solver_env_ok:
  "length (rem_len (solver_env clock ws timeout)) = length (words (solver_env clock ws timeout)) + 1"
  by (simp add: solver_env_def)

lemma find_best_cover_run:
  obtains s where
    "dfs (solver_env clock ws timeout) 0 (seed_counts (greedy_seed (sorted_by_len_desc ws) lc))
       (seed_used (greedy_seed (sorted_by_len_desc ws) lc))
       (root_state (greedy_seed (sorted_by_len_desc ws) lc)) = Inr s"
    "find_best_cover clock ws lc timeout =
       Inr \<lparr>returned = (best_subset s, best_used s),
            letter_counts_after = seed_counts (greedy_seed (sorted_by_len_desc ws) lc),
            words_after = ws, reads_after = clock_reads s\<rparr>"
proof -
  from dfs_total[OF solver_env_ok, of 0 clock ws timeout]
  obtain s where s: "dfs (solver_env clock ws timeout) 0
       (seed_counts (greedy_seed (sorted_by_len_desc ws) lc))
       (seed_used (greedy_seed (sorted_by_len_desc ws) lc))
       (root_state (greedy_seed (sorted_by_len_desc ws) lc)) = Inr s"
    by blast
  then have "find_best_cover clock ws lc timeout =
       Inr \<lparr>returned = (best_subset s, best_used s),
            letter_counts_after = seed_counts (greedy_seed (sorted_by_len_desc ws) lc),
            words_after = ws, reads_after = clock_reads s\<rparr>"
    by (simp add: find_best_cover_dfs)
  with s that show ?thesis by blast
qed

section \<open>Further facts about the seed, the counters and the search\<close>

lemma total_length_snoc [simp]: "total_length (xs @ [w]) = total_length xs + int (length w)"
  by (simp add: total_length_def)

lemma occurrences_snoc [simp]:
  "occurrences ch (xs @ [w]) = occurrences ch xs + int (count_list w ch)"
  by (simp add: occurrences_def)

lemma seed_subset_chosen0: "seed_subset (greedy_seed ws lc) = chosen0 (greedy_seed ws lc)"
  by (induction ws) (simp_all add: Let_def)

lemma seed_used_total: "seed_used (greedy_seed ws lc) = total_length (chosen0 (greedy_seed ws lc))"
  by (induction ws) (simp_all add: Let_def total_length_def)

lemma nonneg_getitem: "nonneg c \<Longrightarrow> 0 \<le> getitem c ch"
proof -
  assume n: "nonneg c"
  show ?thesis
  proof (cases "map_of c ch")
    case None
    then show ?thesis by (simp add: getitem_def)
  next
    case (Some v)
    then have "(ch, v) \<in> set c" by (rule map_of_SomeD)
    with n have "0 \<le> v" by (auto simp: nonneg_def list_all_iff)
    with Some show ?thesis by (simp add: getitem_def)
  qed
qed

lemma count_list_0: "ch \<notin> set w \<Longrightarrow> count_list w ch = 0"
  by (simp add: count_list_0_iff)

lemma afford_subtract_nonneg:
  assumes "\<forall>ch. 0 \<le> getitem counts ch"
    and "\<forall>ch\<in>set w. int (count_list w ch) \<le> getitem counts ch"
  shows "0 \<le> getitem (subtract_items counts (Counter w)) ch"
proof (cases "ch \<in> set w")
  case True
  with assms(2) show ?thesis by (simp add: getitem_subtract_Counter)
next
  case False
  with assms(1) show ?thesis by (simp add: getitem_subtract_Counter count_list_0)
qed

lemma seed_letters:
  assumes "\<forall>ch. 0 \<le> getitem lc ch"
  shows "(\<forall>ch. 0 \<le> getitem (seed_counts (greedy_seed ws lc)) ch) \<and>
         (\<forall>ch. occurrences ch (chosen0 (greedy_seed ws lc))
                 + getitem (seed_counts (greedy_seed ws lc)) ch = getitem lc ch)"
proof (induction ws)
  case Nil
  with assms show ?case by (simp add: occurrences_def)
next
  case (Cons w ws)
  show ?case
  proof (cases "list_all (\<lambda>(ch, c). c \<le> getitem lc ch) (Counter w)")
    case False
    with Cons show ?thesis by (simp add: Let_def)
  next
    case True
    then have a: "\<forall>ch\<in>set w. int (count_list w ch) \<le> getitem lc ch"
      by (simp add: afford_seed_iff)
    have "0 \<le> getitem (subtract_items lc (Counter w)) ch" for ch
      by (rule afford_subtract_nonneg[OF assms a])
    with True show ?thesis
      by (simp add: Let_def occurrences_def getitem_subtract_Counter)
  qed
qed

lemma best_used_record_best: "best_used s \<le> best_used (record_best used s)"
  by (simp add: record_best_def)

lemma seed_used_nonneg: "0 \<le> seed_used (greedy_seed ws lc)"
  by (induction ws) (simp_all add: Let_def)



lemma set_sorted_by_len_desc [simp]: "set (sorted_by_len_desc ws) = set ws"
  by (simp add: sorted_by_len_desc_def)

lemma view_read_clock [simp]: "view (read_clock s) = view s"
  by (simp add: view_def read_clock_def)

lemma view_record_best: "view s = view t \<Longrightarrow> view (record_best u s) = view (record_best u t)"
  by (auto simp: view_def record_best_def)

lemma view_chosen_update: "view s = view t \<Longrightarrow> view (s\<lparr>chosen := c\<rparr>) = view (t\<lparr>chosen := c\<rparr>)"
  by (simp add: view_def)

lemma dfs_clock_free:
  fixes E' :: env
  assumes nf': "\<forall>k. \<not> deadline E' < now E' k"
  shows "\<forall>k. \<not> deadline E < now E k \<Longrightarrow> words E' = words E \<Longrightarrow> rem_len E' = rem_len E \<Longrightarrow>
         view s = view t \<Longrightarrow>
         map_sum id view (dfs E idx counts used s) = map_sum id view (dfs E' idx counts used t)"
    and "\<forall>k. \<not> deadline E < now E k \<Longrightarrow> words E' = words E \<Longrightarrow> rem_len E' = rem_len E \<Longrightarrow>
         view s = view t \<Longrightarrow>
         map_sum id view (branches E i counts used s) = map_sum id view (branches E' i counts used t)"
proof (induction E idx counts used s and E i counts used s arbitrary: t and t
    rule: dfs_branches.induct)
  case (1 E idx counts used s)
  note nf = "1.prems"(1) and we = "1.prems"(2) and re = "1.prems"(3) and v = "1.prems"(4)
  from v have bu: "best_used t = best_used s" by (simp add: view_def)
  from nf have nfs: "\<not> deadline E < now E (clock_reads s)" by blast
  from nf' have nft: "\<not> deadline E' < now E' (clock_reads t)" by blast
  show ?case
  proof (cases "index (rem_len E) idx")
    case (Inl e)
    have "dfs E idx counts used s = Inl e"
      using Inl nfs by (subst dfs.simps) simp
    moreover have "dfs E' idx counts used t = Inl e"
      using Inl nft re by (subst dfs.simps) simp
    ultimately show ?thesis by simp
  next
    case (Inr r)
    show ?thesis
    proof (cases "used + r \<le> best_used s")
      case True
      have "dfs E idx counts used s = Inr (read_clock s)"
        using Inr nfs True by (subst dfs.simps) simp
      moreover have "dfs E' idx counts used t = Inr (read_clock t)"
        using Inr nft re True bu by (subst dfs.simps) simp
      ultimately show ?thesis using v by simp
    next
      case False
      have v': "view (record_best used (read_clock s)) = view (record_best used (read_clock t))"
        by (rule view_record_best) (simp add: v)
      have l: "dfs E idx counts used s
          = branches E idx counts used (record_best used (read_clock s))"
        using Inr nfs False by (subst dfs.simps) simp
      have r: "dfs E' idx counts used t
          = branches E' idx counts used (record_best used (read_clock t))"
        using Inr nft re False bu by (subst dfs.simps) simp
      show ?thesis
        unfolding l r by (rule "1.IH"[OF nfs Inr False nf we re v'])
    qed
  qed
next
  case (2 E i counts used s)
  note nf = "2.prems"(1) and we = "2.prems"(2) and re = "2.prems"(3) and v = "2.prems"(4)
  from v have ch: "chosen t = chosen s" by (simp add: view_def)
  show ?case
  proof (cases "i < length (words E)")
    case False
    with we v show ?thesis by (simp add: branches_done)
  next
    case lt: True
    then have lt': "i < length (words E')" using we by simp
    have w: "index (words E) i = Inr (words E ! i)" using lt by (simp add: index_def)
    let ?w = "words E ! i"
    show ?thesis
    proof (cases "sum_values counts < int (length ?w)")
      case True
      with "2.IH"(1)[OF lt w True nf we re v] lt lt' we show ?thesis
        by (simp add: branches_unfold)
    next
      case nolen: False
      show ?thesis
      proof (cases "list_all (\<lambda>ch. getitem (Counter ?w) ch \<le> getitem counts ch) (keys (Counter ?w))")
        case False
        with "2.IH"(4)[OF lt w nolen refl False nf we re v] lt lt' we nolen show ?thesis
          by (simp add: branches_unfold)
      next
        case aff: True
        let ?c = "subtract_items counts (Counter ?w)" and ?u = "used + int (length ?w)"
        have v1: "view (s\<lparr>chosen := chosen s @ [?w]\<rparr>) = view (t\<lparr>chosen := chosen s @ [?w]\<rparr>)"
          using v by (rule view_chosen_update)
        note d = "2.IH"(2)[OF lt w nolen refl aff nf we re v1]
        show ?thesis
        proof (cases "dfs E (i + 1) ?c ?u (s\<lparr>chosen := chosen s @ [?w]\<rparr>)")
          case (Inl e)
          with d have "dfs E' (i + 1) ?c ?u (t\<lparr>chosen := chosen s @ [?w]\<rparr>) = Inl e"
            by (cases "dfs E' (i + 1) ?c ?u (t\<lparr>chosen := chosen s @ [?w]\<rparr>)") simp_all
          with Inl lt lt' we nolen aff ch show ?thesis
            by (simp add: branches_unfold)
        next
          case (Inr s1)
          with d obtain t1 where t1: "dfs E' (i + 1) ?c ?u (t\<lparr>chosen := chosen s @ [?w]\<rparr>) = Inr t1"
            and v2: "view s1 = view t1"
            by (cases "dfs E' (i + 1) ?c ?u (t\<lparr>chosen := chosen s @ [?w]\<rparr>)") simp_all
          from dfs_chosen[OF Inr] have p: "pop (chosen s1) = Inr (chosen s)" by simp
          have v3: "view (s1\<lparr>chosen := chosen s\<rparr>) = view (t1\<lparr>chosen := chosen s\<rparr>)"
            using v2 by (rule view_chosen_update)
          from "2.IH"(3)[OF lt w nolen refl aff Inr p nf we re v3] Inr t1 lt lt' we nolen aff ch
          show ?thesis
            by (simp add: branches_unfold)
        qed
      qed
    qed
  qed
qed

lemma dict_snd_getitem:
  assumes "is_dict c" and "p \<in> set c"
  shows "snd p = getitem c (fst p)"
proof -
  from assms have "map_of c (fst p) = Some (snd p)"
    by (simp add: is_dict_def)
  then show ?thesis by (simp add: getitem_def)
qed

lemma sum_values_dict:
  assumes "is_dict c"
  shows "sum_values c = sum (getitem c) (set (keys c))"
proof -
  have "map snd c = map (getitem c) (keys c)"
    using dict_snd_getitem[OF assms] by (simp add: keys_def)
  then have "sum_values c = sum_list (map (getitem c) (keys c))"
    by (simp add: sum_values_def)
  also have "\<dots> = sum (getitem c) (set (keys c))"
    by (rule sum_list_distinct_conv_sum_set) (use assms in \<open>simp add: is_dict_def keys_def\<close>)
  finally show ?thesis .
qed

lemma getitem_pos_key: "0 < getitem c ch \<Longrightarrow> ch \<in> set (keys c)"
  by (auto simp: getitem_def keys_def split: option.splits dest: map_of_SomeD intro: rev_image_eqI)

lemma length_le_sum_values:
  assumes d: "is_dict c" and n: "nonneg c"
    and a: "\<forall>ch\<in>set w. int (count_list w ch) \<le> getitem c ch"
  shows "int (length w) \<le> sum_values c"
proof -
  have sub: "set w \<subseteq> set (keys c)"
  proof
    fix ch assume m: "ch \<in> set w"
    then have "0 < count_list w ch" using count_list_0_iff[of w ch] by simp
    with a m have "0 < getitem c ch" by fastforce
    then show "ch \<in> set (keys c)" by (rule getitem_pos_key)
  qed
  have "int (length w) = int (sum (count_list w) (set w))"
    by (simp add: sum_count_set)
  also have "\<dots> = (\<Sum>ch\<in>set w. int (count_list w ch))" by simp
  also have "\<dots> \<le> (\<Sum>ch\<in>set w. getitem c ch)"
    using a by (intro sum_mono) simp
  also have "\<dots> \<le> sum (getitem c) (set (keys c))"
    using sub n by (intro sum_mono2) (simp_all add: nonneg_getitem)
  finally show ?thesis by (simp add: sum_values_dict[OF d])
qed

lemma precheck_sound:
  assumes "is_dict c" and "nonneg c" and "sum_values c < int (length w)"
  shows "\<not> list_all (\<lambda>ch. getitem (Counter w) ch \<le> getitem c ch) (keys (Counter w))"
proof
  assume "list_all (\<lambda>ch. getitem (Counter w) ch \<le> getitem c ch) (keys (Counter w))"
  then have "\<forall>ch\<in>set w. int (count_list w ch) \<le> getitem c ch" by (simp add: afford_dfs_iff)
  from length_le_sum_values[OF assms(1,2) this] assms(3) show False by simp
qed

lemma dict_nonneg_iff: "is_dict c \<Longrightarrow> nonneg c \<longleftrightarrow> (\<forall>ch. 0 \<le> getitem c ch)"
proof
  assume "is_dict c" "nonneg c"
  then show "\<forall>ch. 0 \<le> getitem c ch" by (simp add: nonneg_getitem)
next
  assume d: "is_dict c" and g: "\<forall>ch. 0 \<le> getitem c ch"
  have "0 \<le> snd p" if "p \<in> set c" for p
    using dict_snd_getitem[OF d that] g by simp
  then show "nonneg c" by (auto simp: nonneg_def list_all_iff)
qed

lemma nonneg_subtract:
  assumes "is_dict c" and "nonneg c"
    and "\<forall>ch\<in>set w. int (count_list w ch) \<le> getitem c ch"
  shows "nonneg (subtract_items c (Counter w))"
proof -
  from assms(1,2) have "\<forall>ch. 0 \<le> getitem c ch" by (simp add: nonneg_getitem)
  then have "\<forall>ch. 0 \<le> getitem (subtract_items c (Counter w)) ch"
    using afford_subtract_nonneg[OF _ assms(3)] by blast
  with is_dict_subtract_items[OF assms(1)] show ?thesis by (simp add: dict_nonneg_iff)
qed

lemma seed_counts_dict:
  "is_dict lc \<Longrightarrow> nonneg lc \<Longrightarrow>
   is_dict (seed_counts (greedy_seed ws lc)) \<and> nonneg (seed_counts (greedy_seed ws lc))"
  by (induction ws)
    (simp_all add: Let_def is_dict_subtract_items nonneg_subtract afford_seed_iff)

lemma dfs_nocheck_eq:
  "is_dict counts \<Longrightarrow> nonneg counts \<Longrightarrow>
     dfs_nocheck E idx counts used s = dfs E idx counts used s"
  and branches_nocheck_eq:
  "is_dict counts \<Longrightarrow> nonneg counts \<Longrightarrow>
     branches_nocheck E i counts used s = branches E i counts used s"
proof (induction E idx counts used s and E i counts used s rule: dfs_branches.induct)
  case (1 E idx counts used s)
  show ?case
  proof (cases "index (rem_len E) idx")
    case (Inl e)
    then show ?thesis by (subst dfs_nocheck.simps, subst dfs.simps) simp
  next
    case (Inr r)
    show ?thesis
    proof (cases "deadline E < now E (clock_reads s) \<or> used + r \<le> best_used s")
      case True
      with Inr show ?thesis by (subst dfs_nocheck.simps, subst dfs.simps) auto
    next
      case False
      then have a: "\<not> deadline E < now E (clock_reads s)" and b: "\<not> used + r \<le> best_used s"
        by simp_all
      from "1.IH"[OF a Inr b "1.prems"] Inr a b show ?thesis
        by (subst dfs_nocheck.simps, subst dfs.simps) simp
    qed
  qed
next
  case (2 E i counts used s)
  note d = "2.prems"(1) and n = "2.prems"(2)
  show ?case
  proof (cases "i < length (words E)")
    case False
    then show ?thesis by (subst branches_nocheck.simps, subst branches.simps) simp
  next
    case lt: True
    then have w: "index (words E) i = Inr (words E ! i)" by (simp add: index_def)
    let ?w = "words E ! i"
    let ?aff = "list_all (\<lambda>ch. getitem (Counter ?w) ch \<le> getitem counts ch) (keys (Counter ?w))"
    show ?thesis
    proof (cases "sum_values counts < int (length ?w)")
      case True
      from precheck_sound[OF d n True] have na: "\<not> ?aff" .
      from "2.IH"(1)[OF lt w True d n] lt w True na show ?thesis
        by (subst branches_nocheck.simps, subst branches.simps) (simp add: Let_def)
    next
      case nolen: False
      show ?thesis
      proof (cases ?aff)
        case False
        from "2.IH"(4)[OF lt w nolen refl False d n] lt w nolen False show ?thesis
          by (subst branches_nocheck.simps, subst branches.simps) (simp add: Let_def)
      next
        case aff: True
        then have a': "\<forall>ch\<in>set ?w. int (count_list ?w ch) \<le> getitem counts ch"
          by (simp add: afford_dfs_iff)
        let ?c = "subtract_items counts (Counter ?w)" and ?u = "used + int (length ?w)"
        let ?s = "s\<lparr>chosen := chosen s @ [?w]\<rparr>"
        have d1: "is_dict ?c" using d by (rule is_dict_subtract_items)
        have n1: "nonneg ?c" using d n a' by (rule nonneg_subtract)
        have e1: "dfs_nocheck E (i + 1) ?c ?u ?s = dfs E (i + 1) ?c ?u ?s"
          by (rule "2.IH"(2)[OF lt w nolen refl aff d1 n1])
        have e2: "branches_nocheck E (i + 1) counts used (s'\<lparr>chosen := c'\<rparr>)
            = branches E (i + 1) counts used (s'\<lparr>chosen := c'\<rparr>)"
          if "dfs E (i + 1) ?c ?u ?s = Inr s'" and "pop (chosen s') = Inr c'" for s' c'
          by (rule "2.IH"(3)[OF lt w nolen refl aff that d n])
        have l: "branches_nocheck E i counts used s =
            (case dfs E (i + 1) ?c ?u ?s of Inl e \<Rightarrow> Inl e
             | Inr s' \<Rightarrow> (case pop (chosen s') of Inl e \<Rightarrow> Inl e
                 | Inr c' \<Rightarrow> branches_nocheck E (i + 1) counts used (s'\<lparr>chosen := c'\<rparr>)))"
          using lt w aff e1 by (subst branches_nocheck.simps) (simp add: Let_def)
        have r: "branches E i counts used s =
            (case dfs E (i + 1) ?c ?u ?s of Inl e \<Rightarrow> Inl e
             | Inr s' \<Rightarrow> (case pop (chosen s') of Inl e \<Rightarrow> Inl e
                 | Inr c' \<Rightarrow> branches E (i + 1) counts used (s'\<lparr>chosen := c'\<rparr>)))"
          using lt w aff nolen by (subst branches.simps) (simp add: Let_def)
        show ?thesis
          unfolding l r using e2 by (auto split: sum.splits)
      qed
    qed
  qed
qed

section \<open>The given deadline and the recursion limit\<close>

lemma find_best_cover_at_eq:
  "find_best_cover_at dl clock ws lc = find_best_cover clock ws lc (dl - clock 0)"
  by (simp add: find_best_cover_at_def find_best_cover_def)














section \<open>The claims\<close>

text \<open>
  Claim C1 says that the seed word cannot be selected again at the root, so that no
  candidate occurs more often in the returned subset than in the candidate list. The
  root call is \<^verbatim>\<open>dfs(0, ...)\<close> with the seed word already on the path, and index \<open>0\<close>
  is the seed word itself for a candidate list that the filter produced. With the pool
  \<^verbatim>\<open>AATT\<close> and the single candidate \<^verbatim>\<open>AT\<close> the search takes the candidate a
  second time and returns it twice, with four letters used.
\<close>

theorem seed_word_selected_again:
  "find_best_cover (\<lambda>k. 0) [''AT''] [(CHR ''A'', 2), (CHR ''T'', 2)] 1
     = Inr \<lparr>returned = ([''AT'', ''AT''], 4),
            letter_counts_after = [(CHR ''A'', 1), (CHR ''T'', 1)],
            words_after = [''AT''], reads_after = 3\<rparr>"
  by code_simp

text \<open>
  Claim C2 says that the caller's letter counts hold the same values after the call as
  before. The seed loop subtracts the letters of the seed word from the Counter that the
  caller passed: with the pool \<^verbatim>\<open>AT\<close> and the candidate \<^verbatim>\<open>AT\<close> the caller's
  Counter holds zero for both letters after the call.
\<close>

theorem letter_counts_changed_by_call:
  "map_sum id letter_counts_after
      (find_best_cover (\<lambda>k. 0) [''AT''] [(CHR ''A'', 1), (CHR ''T'', 1)] 1)
     = Inr [(CHR ''A'', 0), (CHR ''T'', 0)]"
  by code_simp

text \<open>
  Claim C3: when no count of the pool is negative, the call returns, and for every
  letter the occurrences of that letter in the words of the returned subset, all words
  together, are at most the letter's count in the pool as it was before the call. This
  holds for every candidate list, every clock and every timeout.
\<close>

theorem subset_fits_pool:
  assumes "nonneg lc"
  shows "\<exists>r. find_best_cover clock ws lc timeout = Inr r \<and>
           (\<forall>ch. (\<Sum>w\<leftarrow>fst (returned r). int (count_list w ch)) \<le> getitem lc ch)"
proof -
  let ?sd = "greedy_seed (sorted_by_len_desc ws) lc"
  obtain s where run: "dfs (solver_env clock ws timeout) 0 (seed_counts ?sd) (seed_used ?sd)
        (root_state ?sd) = Inr s"
    and res: "find_best_cover clock ws lc timeout =
       Inr \<lparr>returned = (best_subset s, best_used s), letter_counts_after = seed_counts ?sd,
            words_after = ws, reads_after = clock_reads s\<rparr>"
    by (rule find_best_cover_run)
  from assms have nn: "\<forall>ch. 0 \<le> getitem lc ch" by (simp add: nonneg_getitem)
  let ?N = "\<lambda>counts chsn (used::int). (\<forall>ch. 0 \<le> getitem counts ch) \<and>
              (\<forall>ch. occurrences ch chsn + getitem counts ch = getitem lc ch)"
  let ?B = "\<lambda>(b::int) bs. \<forall>ch. occurrences ch bs \<le> getitem lc ch"
  have "?B (best_used s) (best_subset s)"
  proof (rule dfs_invariant(1)[where N = ?N and B = ?B, OF _ _ run])
    show "?N (seed_counts ?sd) (chosen (root_state ?sd)) (seed_used ?sd)"
      using seed_letters[OF nn, of "sorted_by_len_desc ws"] by (simp add: root_state_def)
    have "occurrences ch (chosen0 ?sd) \<le> getitem lc ch" for ch
    proof -
      from seed_letters[OF nn, of "sorted_by_len_desc ws"]
      have "0 \<le> getitem (seed_counts ?sd) ch"
        "occurrences ch (chosen0 ?sd) + getitem (seed_counts ?sd) ch = getitem lc ch"
        by blast+
      then show ?thesis by linarith
    qed
    then show "?B (best_used (root_state ?sd)) (best_subset (root_state ?sd))"
      by (simp add: root_state_def seed_subset_chosen0)
  next
    fix counts chsn w and used :: int
    assume n: "?N counts chsn used"
      and a: "list_all (\<lambda>ch. getitem (Counter w) ch \<le> getitem counts ch) (keys (Counter w))"
    from a have a': "\<forall>ch\<in>set w. int (count_list w ch) \<le> getitem counts ch"
      by (simp add: afford_dfs_iff)
    from n have "\<forall>ch. 0 \<le> getitem (subtract_items counts (Counter w)) ch"
      using afford_subtract_nonneg[OF _ a'] by blast
    moreover from n have "\<forall>ch. occurrences ch (chsn @ [w]) + getitem (subtract_items counts (Counter w)) ch
        = getitem lc ch"
      by (simp add: getitem_subtract_Counter)
    ultimately show "?N (subtract_items counts (Counter w)) (chsn @ [w]) (used + int (length w))"
      by blast
  next
    fix counts chsn bs and used b :: int
    assume n: "?N counts chsn used"
    show "?B used chsn"
    proof
      fix ch
      from n have "0 \<le> getitem counts ch" "occurrences ch chsn + getitem counts ch = getitem lc ch"
        by blast+
      then show "occurrences ch chsn \<le> getitem lc ch" by linarith
    qed
  qed
  with res show ?thesis by (simp add: occurrences_def)
qed

theorem subset_fits_pool_witness:
  "nonneg [(CHR ''A'', 2), (CHR ''T'', 2)] \<and>
   (\<exists>r. find_best_cover (\<lambda>k. 0) [''AT''] [(CHR ''A'', 2), (CHR ''T'', 2)] 1 = Inr r \<and>
        (\<forall>ch. (\<Sum>w\<leftarrow>fst (returned r). int (count_list w ch))
                \<le> getitem [(CHR ''A'', 2), (CHR ''T'', 2)] ch))"
proof -
  have h: "nonneg [(CHR ''A'', 2), (CHR ''T'', 2)]" by (simp add: nonneg_def)
  from subset_fits_pool[OF h, of "\<lambda>k. 0" "[''AT'']" 1] h show ?thesis by blast
qed

text \<open>
  Claim C4: the call returns, and the integer it returns is the sum of the lengths of
  the words in the returned subset. This holds for every input.
\<close>

theorem letters_used_is_total_length:
  "\<exists>r. find_best_cover clock ws lc timeout = Inr r \<and>
        snd (returned r) = (\<Sum>w\<leftarrow>fst (returned r). int (length w))"
proof -
  let ?sd = "greedy_seed (sorted_by_len_desc ws) lc"
  obtain s where run: "dfs (solver_env clock ws timeout) 0 (seed_counts ?sd) (seed_used ?sd)
        (root_state ?sd) = Inr s"
    and res: "find_best_cover clock ws lc timeout =
       Inr \<lparr>returned = (best_subset s, best_used s), letter_counts_after = seed_counts ?sd,
            words_after = ws, reads_after = clock_reads s\<rparr>"
    by (rule find_best_cover_run)
  have "best_used s = total_length (best_subset s)"
  proof (rule dfs_invariant(1)[where N = "\<lambda>counts chsn used. used = total_length chsn"
        and B = "\<lambda>b bs. b = total_length bs", OF _ _ run])
    show "seed_used ?sd = total_length (chosen (root_state ?sd))"
      by (simp add: root_state_def seed_used_total)
    show "best_used (root_state ?sd) = total_length (best_subset (root_state ?sd))"
      by (simp add: root_state_def seed_used_total seed_subset_chosen0)
  qed simp_all
  with res show ?thesis by (simp add: total_length_def)
qed

text \<open>
  Claim C5: the recorded best number of letters never decreases. The seed replaces the
  initial \<open>0\<close> by a length; the update at a node only ever raises the value; a call of
  \<^verbatim>\<open>dfs\<close> from any state, and the loop over the candidates from any state, end with a
  value at least as large as the one they started with (every nested call is such a
  call); and the value returned by the solver is at least the seed's.
\<close>

theorem best_used_never_decreases:
  "0 \<le> seed_used (greedy_seed ws lc) \<and>
   best_used s \<le> best_used (record_best used s) \<and>
   (\<forall>s'. dfs E idx counts used s = Inr s' \<longrightarrow> best_used s \<le> best_used s') \<and>
   (\<forall>s'. branches E idx counts used s = Inr s' \<longrightarrow> best_used s \<le> best_used s') \<and>
   (\<exists>r. find_best_cover clock ws lc timeout = Inr r \<and>
        seed_used (greedy_seed (sorted_by_len_desc ws) lc) \<le> snd (returned r))"
proof -
  have d: "best_used s0 \<le> best_used s'" if "dfs E0 i0 c0 u0 s0 = Inr s'" for E0 i0 c0 u0 s0 s'
    by (rule dfs_invariant(1)[where N = "\<lambda>_ _ _. True" and B = "\<lambda>b bs. best_used s0 \<le> b",
          OF _ _ that]) simp_all
  have b: "best_used s0 \<le> best_used s'" if "branches E0 i0 c0 u0 s0 = Inr s'" for E0 i0 c0 u0 s0 s'
    by (rule dfs_invariant(2)[where N = "\<lambda>_ _ _. True" and B = "\<lambda>b bs. best_used s0 \<le> b",
          OF _ _ that]) simp_all
  let ?sd = "greedy_seed (sorted_by_len_desc ws) lc"
  obtain s1 where run: "dfs (solver_env clock ws timeout) 0 (seed_counts ?sd) (seed_used ?sd)
        (root_state ?sd) = Inr s1"
    and res: "find_best_cover clock ws lc timeout =
       Inr \<lparr>returned = (best_subset s1, best_used s1), letter_counts_after = seed_counts ?sd,
            words_after = ws, reads_after = clock_reads s1\<rparr>"
    by (rule find_best_cover_run)
  from d[OF run] have "seed_used ?sd \<le> best_used s1" by (simp add: root_state_def)
  with res d b show ?thesis
    by (simp add: seed_used_nonneg best_used_record_best)
qed

theorem best_used_never_decreases_witness:
  "dfs \<lparr>now = \<lambda>k. 0, deadline = 1, words = [''AT''], rem_len = [2, 0]\<rparr> 0
       [(CHR ''A'', 1), (CHR ''T'', 1)] 2
       \<lparr>best_used = 2, best_subset = [''AT''], chosen = [''AT''], clock_reads = 1\<rparr>
     = Inr \<lparr>best_used = 4, best_subset = [''AT'', ''AT''], chosen = [''AT''], clock_reads = 3\<rparr> \<and>
   best_used \<lparr>best_used = 2, best_subset = [''AT''], chosen = [''AT''], clock_reads = 1\<rparr>
     \<le> best_used \<lparr>best_used = 4, best_subset = [''AT'', ''AT''], chosen = [''AT''], clock_reads = 3\<rparr> \<and>
   branches \<lparr>now = \<lambda>k. 0, deadline = 1, words = [''AT''], rem_len = [2, 0]\<rparr> 0
       [(CHR ''A'', 1), (CHR ''T'', 1)] 2
       \<lparr>best_used = 2, best_subset = [''AT''], chosen = [''AT''], clock_reads = 1\<rparr>
     = Inr \<lparr>best_used = 4, best_subset = [''AT'', ''AT''], chosen = [''AT''], clock_reads = 2\<rparr>"
proof -
  let ?E = "\<lparr>now = \<lambda>k. 0, deadline = 1, words = [''AT''], rem_len = [2, 0]\<rparr>"
  let ?s = "\<lparr>best_used = 2, best_subset = [''AT''], chosen = [''AT''], clock_reads = 1\<rparr>"
  have d: "dfs ?E 0 [(CHR ''A'', 1), (CHR ''T'', 1)] 2 ?s
     = Inr \<lparr>best_used = 4, best_subset = [''AT'', ''AT''], chosen = [''AT''], clock_reads = 3\<rparr>"
    by code_simp
  have b: "branches ?E 0 [(CHR ''A'', 1), (CHR ''T'', 1)] 2 ?s
     = Inr \<lparr>best_used = 4, best_subset = [''AT'', ''AT''], chosen = [''AT''], clock_reads = 2\<rparr>"
    by code_simp
  from best_used_never_decreases[of "[]" "[]" ?s 2 ?E 0 "[(CHR ''A'', 1), (CHR ''T'', 1)]"] d b
  show ?thesis by blast
qed

text \<open>
  Claim C6: when the clock reading at the entry of the root node is past the deadline,
  the deadline being the value that line 173 computed, the root call returns at once,
  and the solver returns the seed's subset and the seed's number of letters, after two
  clock readings in all (the one of line 173 and the root's). A reading equal to the
  deadline is not past it.
\<close>

theorem expired_deadline_returns_seed:
  assumes "dl < clock 1"
  shows "dfs \<lparr>now = clock, deadline = dl, words = sorted_by_len_desc ws,
              rem_len = map (suffix_len (sorted_by_len_desc ws)) [0..<length ws + 1]\<rparr> 0
             (seed_counts (greedy_seed (sorted_by_len_desc ws) lc))
             (seed_used (greedy_seed (sorted_by_len_desc ws) lc))
             (root_state (greedy_seed (sorted_by_len_desc ws) lc))
           = Inr (read_clock (root_state (greedy_seed (sorted_by_len_desc ws) lc))) \<and>
         find_best_cover_at dl clock ws lc =
           Inr \<lparr>returned = (seed_subset (greedy_seed (sorted_by_len_desc ws) lc),
                            seed_used (greedy_seed (sorted_by_len_desc ws) lc)),
                letter_counts_after = seed_counts (greedy_seed (sorted_by_len_desc ws) lc),
                words_after = ws, reads_after = 2\<rparr>"
proof -
  let ?sd = "greedy_seed (sorted_by_len_desc ws) lc"
  let ?E = "\<lparr>now = clock, deadline = dl, words = sorted_by_len_desc ws,
             rem_len = map (suffix_len (sorted_by_len_desc ws)) [0..<length ws + 1]\<rparr>"
  have E: "solver_env clock ws (dl - clock 0) = ?E"
    by (simp add: solver_env_def)
  have "deadline ?E < now ?E (clock_reads (root_state ?sd))"
    using assms by (simp add: root_state_def)
  then have run: "dfs ?E 0 (seed_counts ?sd) (seed_used ?sd) (root_state ?sd)
      = Inr (read_clock (root_state ?sd))"
    by (subst dfs.simps) simp
  have "find_best_cover clock ws lc (dl - clock 0) =
      (case dfs ?E 0 (seed_counts ?sd) (seed_used ?sd) (root_state ?sd) of
         Inl e \<Rightarrow> Inl e
       | Inr s \<Rightarrow> Inr \<lparr>returned = (best_subset s, best_used s),
                       letter_counts_after = seed_counts ?sd, words_after = ws,
                       reads_after = clock_reads s\<rparr>)"
    using find_best_cover_dfs[of clock ws lc "dl - clock 0"] unfolding E Let_def .
  also have "\<dots> = Inr \<lparr>returned = (seed_subset ?sd, seed_used ?sd),
      letter_counts_after = seed_counts ?sd, words_after = ws, reads_after = 2\<rparr>"
    by (subst run) (simp add: root_state_def read_clock_def)
  finally have "find_best_cover_at dl clock ws lc =
      Inr \<lparr>returned = (seed_subset ?sd, seed_used ?sd), letter_counts_after = seed_counts ?sd,
           words_after = ws, reads_after = 2\<rparr>"
    by (simp only: find_best_cover_at_eq)
  with run show ?thesis by blast
qed

theorem expired_deadline_returns_seed_witness:
  "(0::real) < real 1 \<and>
   find_best_cover_at 0 real [''AT'', ''A''] [(CHR ''A'', 2), (CHR ''T'', 1)] =
     Inr \<lparr>returned = (seed_subset (greedy_seed (sorted_by_len_desc [''AT'', ''A''])
                                    [(CHR ''A'', 2), (CHR ''T'', 1)]),
                      seed_used (greedy_seed (sorted_by_len_desc [''AT'', ''A''])
                                    [(CHR ''A'', 2), (CHR ''T'', 1)])),
          letter_counts_after = seed_counts (greedy_seed (sorted_by_len_desc [''AT'', ''A''])
                                    [(CHR ''A'', 2), (CHR ''T'', 1)]),
          words_after = [''AT'', ''A''], reads_after = 2\<rparr> \<and>
   seed_subset (greedy_seed (sorted_by_len_desc [''AT'', ''A'']) [(CHR ''A'', 2), (CHR ''T'', 1)])
     = [''AT'']"
proof -
  have h: "(0::real) < real 1" by simp
  have s: "seed_subset (greedy_seed (sorted_by_len_desc [''AT'', ''A''])
      [(CHR ''A'', 2), (CHR ''T'', 1)]) = [''AT'']"
    by code_simp
  from expired_deadline_returns_seed[of 0 real "[''AT'', ''A'']" "[(CHR ''A'', 2), (CHR ''T'', 1)]", OF h]
    h s
  show ?thesis by blast
qed




text \<open>
  Claim C8: the candidates are searched in descending order of length, the sorted list
  is a permutation of the input, and words of the same length keep the order in which
  they arrived; the suffix bound is computed over this sorted list, entry \<open>i\<close> being the
  summed length of the words at index \<open>i\<close> and after, and the search runs over the same
  list.
\<close>

theorem candidates_sorted_stable:
  "sorted_wrt (\<lambda>a b. length b \<le> length a) (sorted_by_len_desc ws) \<and>
   mset (sorted_by_len_desc ws) = mset ws \<and>
   (\<forall>k. filter (\<lambda>w. length w = k) (sorted_by_len_desc ws) = filter (\<lambda>w. length w = k) ws) \<and>
   build_rem_len (sorted_by_len_desc ws)
     = Inr (map (\<lambda>i. int (sum_list (map length (drop i (sorted_by_len_desc ws)))))
              [0..<length ws + 1]) \<and>
   find_best_cover clock ws lc timeout =
     (let sd = greedy_seed (sorted_by_len_desc ws) lc in
      case dfs \<lparr>now = clock, deadline = clock 0 + timeout, words = sorted_by_len_desc ws,
                rem_len = map (\<lambda>i. int (sum_list (map length (drop i (sorted_by_len_desc ws)))))
                            [0..<length ws + 1]\<rparr>
               0 (seed_counts sd) (seed_used sd) (root_state sd) of
        Inl e \<Rightarrow> Inl e
      | Inr s \<Rightarrow> Inr \<lparr>returned = (best_subset s, best_used s),
                      letter_counts_after = seed_counts sd, words_after = ws,
                      reads_after = clock_reads s\<rparr>)"
proof (intro conjI allI)
  have "sorted (map length (sort_key length (rev ws)))" by (rule sorted_sort_key)
  then have "sorted_wrt (\<lambda>a b. length a \<le> length b) (sort_key length (rev ws))"
    by (simp add: sorted_map)
  then show "sorted_wrt (\<lambda>a b. length b \<le> length a) (sorted_by_len_desc ws)"
    by (simp add: sorted_by_len_desc_def sorted_wrt_rev)
next
  show "mset (sorted_by_len_desc ws) = mset ws"
    by (simp add: sorted_by_len_desc_def)
next
  fix k
  have "filter (\<lambda>w. length w = k) (sort_key length (rev ws)) = filter (\<lambda>w. length w = k) (rev ws)"
    by (rule sort_key_stable)
  then show "filter (\<lambda>w. length w = k) (sorted_by_len_desc ws) = filter (\<lambda>w. length w = k) ws"
    by (simp add: sorted_by_len_desc_def rev_filter flip: rev_filter)
next
  have e: "suffix_len (sorted_by_len_desc ws)
      = (\<lambda>i. int (sum_list (map length (drop i (sorted_by_len_desc ws)))))"
    by (rule ext) (simp add: suffix_len_def)
  show "build_rem_len (sorted_by_len_desc ws)
     = Inr (map (\<lambda>i. int (sum_list (map length (drop i (sorted_by_len_desc ws)))))
              [0..<length ws + 1])"
    using build_rem_len_eq[of "sorted_by_len_desc ws"] by (simp add: e)
  show "find_best_cover clock ws lc timeout =
     (let sd = greedy_seed (sorted_by_len_desc ws) lc in
      case dfs \<lparr>now = clock, deadline = clock 0 + timeout, words = sorted_by_len_desc ws,
                rem_len = map (\<lambda>i. int (sum_list (map length (drop i (sorted_by_len_desc ws)))))
                            [0..<length ws + 1]\<rparr>
               0 (seed_counts sd) (seed_used sd) (root_state sd) of
        Inl e \<Rightarrow> Inl e
      | Inr s \<Rightarrow> Inr \<lparr>returned = (best_subset s, best_used s),
                      letter_counts_after = seed_counts sd, words_after = ws,
                      reads_after = clock_reads s\<rparr>)"
    using find_best_cover_dfs[of clock ws lc timeout] by (simp add: solver_env_def e)
qed

text \<open>
  Claim C9: two runs on the same candidates and the same pool, each with a clock that
  never reads past its own deadline, return the same subset in the same order and the
  same number of letters, and leave the same values behind. The two clocks and the two
  timeouts may differ.
\<close>

theorem never_firing_deadline_deterministic:
  assumes "\<forall>k. \<not> clock1 0 + timeout1 < clock1 k"
    and "\<forall>k. \<not> clock2 0 + timeout2 < clock2 k"
  shows "\<exists>r1 r2. find_best_cover clock1 ws lc timeout1 = Inr r1 \<and>
                 find_best_cover clock2 ws lc timeout2 = Inr r2 \<and>
                 returned r1 = returned r2 \<and>
                 letter_counts_after r1 = letter_counts_after r2 \<and>
                 words_after r1 = words_after r2"
proof -
  let ?sd = "greedy_seed (sorted_by_len_desc ws) lc"
  let ?E1 = "solver_env clock1 ws timeout1" and ?E2 = "solver_env clock2 ws timeout2"
  obtain s1 where run1: "dfs ?E1 0 (seed_counts ?sd) (seed_used ?sd) (root_state ?sd) = Inr s1"
    and res1: "find_best_cover clock1 ws lc timeout1 =
       Inr \<lparr>returned = (best_subset s1, best_used s1), letter_counts_after = seed_counts ?sd,
            words_after = ws, reads_after = clock_reads s1\<rparr>"
    by (rule find_best_cover_run)
  obtain s2 where run2: "dfs ?E2 0 (seed_counts ?sd) (seed_used ?sd) (root_state ?sd) = Inr s2"
    and res2: "find_best_cover clock2 ws lc timeout2 =
       Inr \<lparr>returned = (best_subset s2, best_used s2), letter_counts_after = seed_counts ?sd,
            words_after = ws, reads_after = clock_reads s2\<rparr>"
    by (rule find_best_cover_run)
  have nf1: "\<forall>k. \<not> deadline ?E1 < now ?E1 k" using assms(1) by (simp add: solver_env_def)
  have nf2: "\<forall>k. \<not> deadline ?E2 < now ?E2 k" using assms(2) by (simp add: solver_env_def)
  have "map_sum id view (dfs ?E1 0 (seed_counts ?sd) (seed_used ?sd) (root_state ?sd))
      = map_sum id view (dfs ?E2 0 (seed_counts ?sd) (seed_used ?sd) (root_state ?sd))"
    by (rule dfs_clock_free(1)[OF nf2 nf1]) (simp_all add: solver_env_def)
  with run1 run2 have "view s1 = view s2" by simp
  with res1 res2 show ?thesis by (simp add: view_def)
qed

theorem never_firing_deadline_deterministic_witness:
  "(\<forall>k. \<not> (\<lambda>k. 0) 0 + (1::real) < (\<lambda>k. 0) k) \<and>
   (\<forall>k. \<not> (\<lambda>k. min (real k) 10) 0 + (20::real) < (\<lambda>k. min (real k) 10) k) \<and>
   (\<exists>r1 r2. find_best_cover (\<lambda>k. 0) [''AT'', ''CAT''] (Counter ''TACT'') 1 = Inr r1 \<and>
            find_best_cover (\<lambda>k. min (real k) 10) [''AT'', ''CAT''] (Counter ''TACT'') 20 = Inr r2 \<and>
            returned r1 = returned r2 \<and>
            letter_counts_after r1 = letter_counts_after r2 \<and>
            words_after r1 = words_after r2)"
proof -
  have h1: "\<forall>k. \<not> (\<lambda>k. 0) 0 + (1::real) < (\<lambda>k. 0) k" by simp
  have h2: "\<forall>k. \<not> (\<lambda>k. min (real k) 10) 0 + (20::real) < (\<lambda>k. min (real k) 10) k" by simp
  from never_firing_deadline_deterministic[OF h1 h2, of "[''AT'', ''CAT'']" "Counter ''TACT''"] h1 h2
  show ?thesis by blast
qed

text \<open>
  Claim C10: for a Counter without negative counts, a word longer than the sum of the
  counts fails the letter-by-letter check; and for every pool without negative counts the
  solver without the length pre-check returns what the solver returns, for every candidate
  list, clock and timeout.
\<close>

theorem length_precheck_redundant:
  assumes "is_dict lc" and "nonneg lc"
  shows "(is_dict counts \<and> nonneg counts \<and> sum_values counts < int (length w) \<longrightarrow>
           \<not> list_all (\<lambda>ch. getitem (Counter w) ch \<le> getitem counts ch) (keys (Counter w))) \<and>
         find_best_cover_nocheck clock ws lc timeout = find_best_cover clock ws lc timeout"
proof
  show "is_dict counts \<and> nonneg counts \<and> sum_values counts < int (length w) \<longrightarrow>
           \<not> list_all (\<lambda>ch. getitem (Counter w) ch \<le> getitem counts ch) (keys (Counter w))"
    using precheck_sound by blast
next
  let ?sd = "greedy_seed (sorted_by_len_desc ws) lc"
  from seed_counts_dict[OF assms] have "is_dict (seed_counts ?sd)" "nonneg (seed_counts ?sd)"
    by blast+
  then show "find_best_cover_nocheck clock ws lc timeout = find_best_cover clock ws lc timeout"
    by (simp add: find_best_cover_nocheck_def find_best_cover_def Let_def build_rem_len_eq
        dfs_nocheck_eq)
qed

theorem length_precheck_redundant_witness:
  "is_dict [(CHR ''A'', 2), (CHR ''T'', 2)] \<and> nonneg [(CHR ''A'', 2), (CHR ''T'', 2)] \<and>
   (is_dict [(CHR ''A'', 1)] \<and> nonneg [(CHR ''A'', 1)] \<and>
      sum_values [(CHR ''A'', 1)] < int (length ''AT'')) \<and>
   \<not> list_all (\<lambda>ch. getitem (Counter ''AT'') ch \<le> getitem [(CHR ''A'', 1)] ch)
        (keys (Counter ''AT'')) \<and>
   find_best_cover_nocheck (\<lambda>k. 0) [''AT'', ''TA''] [(CHR ''A'', 2), (CHR ''T'', 2)] 1
     = find_best_cover (\<lambda>k. 0) [''AT'', ''TA''] [(CHR ''A'', 2), (CHR ''T'', 2)] 1"
proof -
  have h1: "is_dict [(CHR ''A'', 2), (CHR ''T'', 2)]" by (simp add: is_dict_def)
  have h2: "nonneg [(CHR ''A'', 2), (CHR ''T'', 2)]" by (simp add: nonneg_def)
  have h3: "is_dict [(CHR ''A'', 1)] \<and> nonneg [(CHR ''A'', 1)] \<and>
      sum_values [(CHR ''A'', 1)] < int (length ''AT'')"
    by (simp add: is_dict_def nonneg_def sum_values_def)
  from length_precheck_redundant[OF h1 h2, of "[(CHR ''A'', 1)]" "''AT''" "\<lambda>k. 0" "[''AT'', ''TA'']" 1]
    h1 h2 h3
  show ?thesis by blast
qed

end
